theory Spec2Isabelle
  imports Main
begin

section \<open>The sample program of VS-Code-Debug-Bridge: \<^verbatim>\<open>sample/main.py\<close>\<close>

text \<open>
  The program has three functions over in-memory data (\<^verbatim>\<open>fibonacci\<close>,
  \<^verbatim>\<open>find_primes\<close>, \<^verbatim>\<open>process_users\<close>) and a driver \<^verbatim>\<open>main\<close> that calls them
  on fixed inputs and prints. Python integers are unbounded, so they are \<^typ>\<open>int\<close>.
\<close>

subsection \<open>Python's \<^verbatim>\<open>range\<close>\<close>

text \<open>
  \<^verbatim>\<open>range(a, b)\<close> holds the integers \<open>a, a + 1, ..., b - 1\<close> and is empty when
  \<open>b \<le> a\<close>; \<^verbatim>\<open>range(n)\<close> is \<^verbatim>\<open>range(0, n)\<close>.
\<close>

definition range2 :: "int \<Rightarrow> int \<Rightarrow> int list" where
  "range2 a b = [a..b - 1]"

definition range1 :: "int \<Rightarrow> int list" where
  "range1 n = range2 0 n"

subsection \<open>\<^verbatim>\<open>fibonacci\<close> (lines 5 to 12)\<close>

text \<open>
  \<^verbatim>\<open>
  def fibonacci(n):
      sequence = []
      a, b = 0, 1
      for i in range(n):
          sequence.append(a)
          a, b = b, a + b
      return sequence
  \<close>
  The loop state is \<open>(sequence, a, b)\<close>; the loop variable \<open>i\<close> is not read.
\<close>

fun fibonacci_loop :: "int list \<Rightarrow> int list \<Rightarrow> int \<Rightarrow> int \<Rightarrow> int list" where
  "fibonacci_loop [] sequence a b = sequence"
| "fibonacci_loop (i # rest) sequence a b = fibonacci_loop rest (sequence @ [a]) b (a + b)"

definition fibonacci :: "int \<Rightarrow> int list" where
  "fibonacci n = fibonacci_loop (range1 n) [] 0 1"

subsection \<open>Exceptions\<close>

text \<open>
  A call ends with a value or with an exception: results are sums, \<open>Inl\<close> the
  exception. \<open>KeyError\<close> carries the missing key. \<open>FloatRange\<close> is not a Python
  exception: it ends a run of the model at a floating-point operation that the model
  does not cover (see \<open>float_root\<close> below).
\<close>

datatype error = KeyError string | TypeError | AttributeError | FloatRange

subsection \<open>\<^verbatim>\<open>find_primes\<close> (lines 15 to 26)\<close>

text \<open>
  \<^verbatim>\<open>
  def find_primes(limit):
      primes = []
      for num in range(2, limit + 1):
          is_prime = True
          for i in range(2, int(num**0.5) + 1):
              if num % i == 0:
                  is_prime = False
                  break
          if is_prime:
              primes.append(num)
      return primes
  \<close>
  The bound of the inner loop, \<^verbatim>\<open>int(num**0.5)\<close>, converts \<open>num\<close> to a double,
  raises it to the power 0.5 in the C library and cuts the result to an integer.
  Floating point is outside this development, and the language does not fix how the
  library rounds a power. The model covers the candidates from 0 to below \<open>2^52\<close>.
  There \<open>num\<close> is a double exactly, and the root of a \<open>num\<close> that is not a perfect
  square lies more than one unit in the last place below the next integer; so a power
  that is within one unit in the last place, and exact where the root is an integer,
  is cut to the exact integer root: the largest \<open>k\<close> with \<open>k * k \<le> num\<close>. For any
  other candidate the model ends the run with \<open>FloatRange\<close> and says nothing about
  the code. (From \<open>2^52\<close> on the code's bound is no longer the integer root: the
  double can reach the next integer at \<open>k * k - 1\<close>, the conversion rounds, and from
  about \<open>2^1024\<close> on it raises \<^verbatim>\<open>OverflowError\<close>.)

  \<open>sqrt_search n k\<close> is the largest \<open>j \<le> k\<close> with \<open>j * j \<le> n\<close>.
\<close>

fun sqrt_search :: "nat \<Rightarrow> nat \<Rightarrow> nat" where
  "sqrt_search n 0 = 0"
| "sqrt_search n (Suc k) = (if Suc k * Suc k \<le> n then Suc k else sqrt_search n k)"

definition exact_root :: "int \<Rightarrow> int" where
  "exact_root num = int (sqrt_search (nat num) (nat num))"

definition float_root :: "int \<Rightarrow> error + int" where
  "float_root num =
     (if 0 \<le> num \<and> num < 2 ^ 52 then Inr (exact_root num) else Inl FloatRange)"

text \<open>
  The inner loop returns the final value of \<^verbatim>\<open>is_prime\<close>: \<^verbatim>\<open>break\<close> leaves with
  \<open>False\<close> at the first divisor found. Python's \<^verbatim>\<open>%\<close> with a positive divisor is
  \<open>mod\<close> on \<^typ>\<open>int\<close>; the divisors are at least 2, so there is no division by zero.
\<close>

fun is_prime_loop :: "int \<Rightarrow> int list \<Rightarrow> bool" where
  "is_prime_loop num [] = True"
| "is_prime_loop num (i # rest) = (if num mod i = 0 then False else is_prime_loop num rest)"

text \<open>The bound is computed once per candidate, before the inner loop starts.\<close>

fun find_primes_loop :: "int list \<Rightarrow> int list \<Rightarrow> error + int list" where
  "find_primes_loop [] primes = Inr primes"
| "find_primes_loop (num # rest) primes =
     (case float_root num of
        Inl e \<Rightarrow> Inl e
      | Inr root \<Rightarrow>
          (let is_prime = is_prime_loop num (range2 2 (root + 1))
           in find_primes_loop rest (if is_prime then primes @ [num] else primes)))"

definition find_primes :: "int \<Rightarrow> error + int list" where
  "find_primes limit = find_primes_loop (range2 2 (limit + 1)) []"

subsection \<open>\<^verbatim>\<open>process_users\<close> (lines 29 to 37)\<close>

text \<open>
  \<^verbatim>\<open>
  def process_users(users):
      results = []
      for user in users:
          name = user["name"]
          age = user["age"]
          status = "senior" if age >= 60 else "adult" if age >= 18 else "minor"
          results.append({"name": name, "age": age, "status": status})
      return results
  \<close>
  A user is a dictionary from field names to values; a value is an integer or a
  text. A subscript with a missing key raises \<^verbatim>\<open>KeyError\<close> with that key, and
  comparing a text with \<^verbatim>\<open>60\<close> raises \<^verbatim>\<open>TypeError\<close>. \<^verbatim>\<open>AttributeError\<close> is what
  \<^verbatim>\<open>append\<close> raises on an object that is not a list; it is only needed to make the
  store-level model below total.
\<close>

datatype pyval = PInt int | PStr string

type_synonym pydict = "string \<rightharpoonup> pyval"

text \<open>Line 35 on an integer age.\<close>

definition status_of :: "int \<Rightarrow> string" where
  "status_of age = (if age \<ge> 60 then ''senior'' else if age \<ge> 18 then ''adult'' else ''minor'')"

text \<open>Line 35 on any value: the first comparison raises on a text.\<close>

definition status_expr :: "pyval \<Rightarrow> error + string" where
  "status_expr age = (case age of PInt a \<Rightarrow> Inr (status_of a) | PStr s \<Rightarrow> Inl TypeError)"

text \<open>The loop body, lines 33 to 36, giving the dictionary that is appended.\<close>

definition process_users_body :: "pydict \<Rightarrow> error + pydict" where
  "process_users_body user =
     (case user ''name'' of
        None \<Rightarrow> Inl (KeyError ''name'')
      | Some name \<Rightarrow>
          (case user ''age'' of
             None \<Rightarrow> Inl (KeyError ''age'')
           | Some age \<Rightarrow>
               (case status_expr age of
                  Inl e \<Rightarrow> Inl e
                | Inr status \<Rightarrow>
                    Inr [''name'' \<mapsto> name, ''age'' \<mapsto> age, ''status'' \<mapsto> PStr status])))"

text \<open>
  The loop with its accumulator \<^verbatim>\<open>results\<close>. An exception leaves the function at once:
  the accumulator is dropped and the rest of the list is not visited.
\<close>

fun process_users_loop :: "pydict list \<Rightarrow> pydict list \<Rightarrow> error + pydict list" where
  "process_users_loop [] results = Inr results"
| "process_users_loop (user # rest) results =
     (case process_users_body user of
        Inl e \<Rightarrow> Inl e
      | Inr r \<Rightarrow> process_users_loop rest (results @ [r]))"

definition process_users :: "pydict list \<Rightarrow> error + pydict list" where
  "process_users users = process_users_loop users []"

subsection \<open>\<^verbatim>\<open>process_users\<close> on a store of objects\<close>

text \<open>
  Python lists and dictionaries are mutable objects reached through references. To say
  what \<^verbatim>\<open>process_users\<close> does to the objects it is given, the same code is modelled
  once more on a store: \<open>objs\<close> maps an address to the object there and every address
  below \<open>next_free\<close> is in use. \<^verbatim>\<open>results = []\<close> and the dictionary display each
  allocate a fresh object, and \<^verbatim>\<open>results.append\<close> is the only update of an existing
  one. The items of \<^verbatim>\<open>users\<close> are read once, when the loop starts; each user
  dictionary is read from the store of the moment the loop reaches it.
\<close>

type_synonym addr = nat

datatype obj = DictObj pydict | ListObj "addr list"

record heap =
  objs :: "addr \<Rightarrow> obj"
  next_free :: addr

definition alloc :: "obj \<Rightarrow> heap \<Rightarrow> addr \<times> heap" where
  "alloc ob h =
     (next_free h, \<lparr>objs = (objs h)(next_free h := ob), next_free = Suc (next_free h)\<rparr>)"

definition list_append :: "addr \<Rightarrow> addr \<Rightarrow> heap \<Rightarrow> error + heap" where
  "list_append l x h =
     (case objs h l of
        ListObj xs \<Rightarrow>
          Inr \<lparr>objs = (objs h)(l := ListObj (xs @ [x])), next_free = next_free h\<rparr>
      | DictObj d \<Rightarrow> Inl AttributeError)"

text \<open>A subscript with a text key on a list raises \<^verbatim>\<open>TypeError\<close>.\<close>

fun process_users_heap_loop :: "addr list \<Rightarrow> addr \<Rightarrow> heap \<Rightarrow> error + heap" where
  "process_users_heap_loop [] results h = Inr h"
| "process_users_heap_loop (user # rest) results h =
     (case objs h user of
        ListObj xs \<Rightarrow> Inl TypeError
      | DictObj d \<Rightarrow>
          (case process_users_body d of
             Inl e \<Rightarrow> Inl e
           | Inr r \<Rightarrow>
               (case alloc (DictObj r) h of
                  (a, h1) \<Rightarrow>
                    (case list_append results a h1 of
                       Inl e \<Rightarrow> Inl e
                     | Inr h2 \<Rightarrow> process_users_heap_loop rest results h2))))"

text \<open>
  Iterating over a dictionary yields its keys, which are texts: the loop body raises
  \<^verbatim>\<open>TypeError\<close> at the first one, and an empty dictionary gives the empty result.
\<close>

definition process_users_heap :: "addr \<Rightarrow> heap \<Rightarrow> error + addr \<times> heap" where
  "process_users_heap users h =
     (case alloc (ListObj []) h of
        (results, h1) \<Rightarrow>
          (case objs h1 users of
             ListObj us \<Rightarrow>
               (case process_users_heap_loop us results h1 of
                  Inl e \<Rightarrow> Inl e
                | Inr h2 \<Rightarrow> Inr (results, h2))
           | DictObj d \<Rightarrow>
               (if d = Map.empty then Inr (results, h1) else Inl TypeError)))"

subsection \<open>Printing and \<^verbatim>\<open>main\<close> (lines 40 to 60)\<close>

text \<open>
  \<^verbatim>\<open>str\<close> of an integer is its decimal numeral, with a minus sign when negative;
  \<^verbatim>\<open>str\<close> of a list of integers is the numerals separated by a comma and a space,
  in square brackets. An f-string inserts \<^verbatim>\<open>str\<close> of the value; for a text that is
  the text itself.
\<close>

definition digit_char :: "nat \<Rightarrow> char" where
  "digit_char d = ''0123456789'' ! d"

fun str_nat :: "nat \<Rightarrow> string" where
  "str_nat n = (if n < 10 then [digit_char n] else str_nat (n div 10) @ [digit_char (n mod 10)])"

declare str_nat.simps [simp del]

definition str_int :: "int \<Rightarrow> string" where
  "str_int i = (if i < 0 then CHR ''-'' # str_nat (nat (- i)) else str_nat (nat i))"

fun join :: "string \<Rightarrow> string list \<Rightarrow> string" where
  "join sep [] = []"
| "join sep [x] = x"
| "join sep (x # y # rest) = x @ sep @ join sep (y # rest)"

definition str_int_list :: "int list \<Rightarrow> string" where
  "str_int_list xs = ''['' @ join '', '' (map str_int xs) @ '']''"

definition py_str :: "pyval \<Rightarrow> string" where
  "py_str v = (case v of PInt i \<Rightarrow> str_int i | PStr s \<Rightarrow> s)"

text \<open>Line 57: the line printed for one classified user.\<close>

definition user_line :: "pydict \<Rightarrow> error + string" where
  "user_line u =
     (case u ''name'' of
        None \<Rightarrow> Inl (KeyError ''name'')
      | Some name \<Rightarrow>
          (case u ''status'' of
             None \<Rightarrow> Inl (KeyError ''status'')
           | Some status \<Rightarrow> Inr (''  '' @ py_str name @ '': '' @ py_str status)))"

text \<open>
  The console is the list of lines printed so far. A run ends with the console and the
  exception that stopped it, if any.
\<close>

fun print_users :: "pydict list \<Rightarrow> string list \<Rightarrow> string list \<times> error option" where
  "print_users [] out = (out, None)"
| "print_users (u # rest) out =
     (case user_line u of
        Inl e \<Rightarrow> (out, Some e)
      | Inr line \<Rightarrow> print_users rest (out @ [line]))"

text \<open>The literal of lines 50 to 54.\<close>

definition main_users :: "pydict list" where
  "main_users =
     [[''name'' \<mapsto> PStr ''Alice'', ''age'' \<mapsto> PInt 30],
      [''name'' \<mapsto> PStr ''Bob'', ''age'' \<mapsto> PInt 17],
      [''name'' \<mapsto> PStr ''Charlie'', ''age'' \<mapsto> PInt 65]]"

definition main :: "string list \<times> error option" where
  "main =
     (let fib = fibonacci 10;
          out = [''Fibonacci(10): '' @ str_int_list fib]
      in case find_primes 30 of
           Inl e \<Rightarrow> (out, Some e)
         | Inr primes \<Rightarrow>
             (let out = out @ [''Primes up to 30: '' @ str_int_list primes];
                  users = main_users
              in case process_users users of
                   Inl e \<Rightarrow> (out, Some e)
                 | Inr processed \<Rightarrow>
                     (case print_users processed out of
                        (out, Some e) \<Rightarrow> (out, Some e)
                      | (out, None) \<Rightarrow>
                          (let total = sum_list fib + sum_list primes
                           in (out @ [''Total: '' @ str_int total], None)))))"

section \<open>Notions used to state the properties\<close>

text \<open>The term at position \<open>k\<close> of the sequence that starts with \<open>a\<close>, \<open>b\<close>.\<close>

fun term_from :: "int \<Rightarrow> int \<Rightarrow> nat \<Rightarrow> int" where
  "term_from a b 0 = a"
| "term_from a b (Suc k) = term_from b (a + b) k"

text \<open>
  A prime number, in the words of the specification's glossary: an integer greater than
  1 with no positive divisors other than 1 and itself.
\<close>

definition prime_number :: "int \<Rightarrow> bool" where
  "prime_number p \<longleftrightarrow> 1 < p \<and> (\<forall>d. 0 < d \<and> d dvd p \<longrightarrow> d = 1 \<or> d = p)"

text \<open>
  A user record has its two required fields; its age, when present, is an integer, as
  the specification's data model has it.
\<close>

definition has_fields :: "pydict \<Rightarrow> bool" where
  "has_fields user \<longleftrightarrow> user ''name'' \<noteq> None \<and> user ''age'' \<noteq> None"

definition integer_age :: "pydict \<Rightarrow> bool" where
  "integer_age user \<longleftrightarrow> (case user ''age'' of Some (PStr s) \<Rightarrow> False | _ \<Rightarrow> True)"

text \<open>The user record made of the name and the age of a classified record.\<close>

definition name_age :: "pydict \<Rightarrow> pydict" where
  "name_age r =
     (case (r ''name'', r ''age'') of
        (Some name, Some age) \<Rightarrow> [''name'' \<mapsto> name, ''age'' \<mapsto> age]
      | _ \<Rightarrow> Map.empty)"

text \<open>Reading the store: the dictionary at an address.\<close>

definition dict_at :: "heap \<Rightarrow> addr \<Rightarrow> pydict" where
  "dict_at h a = (case objs h a of DictObj d \<Rightarrow> d | ListObj xs \<Rightarrow> Map.empty)"

definition is_dict :: "heap \<Rightarrow> addr \<Rightarrow> bool" where
  "is_dict h a = (case objs h a of DictObj d \<Rightarrow> True | ListObj xs \<Rightarrow> False)"

text \<open>
  The store after the loop has appended the dictionaries \<open>ds\<close>, each at a fresh
  address, to the list at \<open>results\<close> that held \<open>rs0\<close>.
\<close>

definition extended :: "heap \<Rightarrow> addr \<Rightarrow> addr list \<Rightarrow> pydict list \<Rightarrow> heap" where
  "extended h results rs0 ds =
     \<lparr>objs = (\<lambda>a. if a = results then ListObj (rs0 @ [next_free h..<next_free h + length ds])
                    else if next_free h \<le> a \<and> a < next_free h + length ds
                      then DictObj (ds ! (a - next_free h))
                    else objs h a),
      next_free = next_free h + length ds\<rparr>"

text \<open>Sample inputs.\<close>

definition alice :: pydict where
  "alice = [''name'' \<mapsto> PStr ''Alice'', ''age'' \<mapsto> PInt 30]"

definition no_age :: pydict where
  "no_age = [''name'' \<mapsto> PStr ''Bob'']"

definition no_name :: pydict where
  "no_name = [''age'' \<mapsto> PInt 65]"

definition main_classified :: "pydict list" where
  "main_classified =
     [[''name'' \<mapsto> PStr ''Alice'', ''age'' \<mapsto> PInt 30, ''status'' \<mapsto> PStr ''adult''],
      [''name'' \<mapsto> PStr ''Bob'', ''age'' \<mapsto> PInt 17, ''status'' \<mapsto> PStr ''minor''],
      [''name'' \<mapsto> PStr ''Charlie'', ''age'' \<mapsto> PInt 65, ''status'' \<mapsto> PStr ''senior'']]"

definition sample_heap :: heap where
  "sample_heap =
     \<lparr>objs = (\<lambda>a. ListObj [])
        (0 := DictObj [''name'' \<mapsto> PStr ''Alice'', ''age'' \<mapsto> PInt 30],
         1 := DictObj [''name'' \<mapsto> PStr ''Bob'', ''age'' \<mapsto> PInt 17, ''city'' \<mapsto> PStr ''Oslo''],
         2 := ListObj [0, 1]),
      next_free = 3\<rparr>"

section \<open>Properties of \<^verbatim>\<open>fibonacci\<close>\<close>

lemma term_from_step: "term_from a b (Suc (Suc k)) = term_from a b (Suc k) + term_from a b k"
proof (induction k arbitrary: a b)
  case 0
  show ?case by simp
next
  case (Suc k)
  have "term_from a b (Suc (Suc (Suc k))) = term_from b (a + b) (Suc (Suc k))"
    by simp
  also have "\<dots> = term_from b (a + b) (Suc k) + term_from b (a + b) k"
    by (rule Suc.IH)
  also have "\<dots> = term_from a b (Suc (Suc k)) + term_from a b (Suc k)"
    by simp
  finally show ?case .
qed

lemma fibonacci_loop_eq:
  "fibonacci_loop xs sequence a b = sequence @ map (term_from a b) [0..<length xs]"
proof (induction xs arbitrary: sequence a b)
  case Nil
  show ?case by simp
next
  case (Cons i rest)
  have "map (term_from a b) [0..<length (i # rest)]
      = term_from a b 0 # map (term_from a b \<circ> Suc) [0..<length rest]"
    by (simp add: upt_conv_Cons map_Suc_upt [symmetric] del: upt_Suc)
  also have "\<dots> = a # map (term_from b (a + b)) [0..<length rest]"
    by simp
  finally show ?case
    using Cons.IH [of "sequence @ [a]" b "a + b"] by simp
qed

lemma length_range2: "length (range2 a b) = nat (b - a)"
  by (simp add: range2_def)

lemma fibonacci_eq: "fibonacci n = map (term_from 0 1) [0..<nat n]"
  by (simp add: fibonacci_def fibonacci_loop_eq range1_def length_range2)

text \<open>
  C1. For every count \<open>n \<ge> 0\<close> the list \<open>fibonacci n\<close> has exactly \<open>n\<close> elements,
  its first element is 0 when \<open>n \<ge> 1\<close>, its second element is 1 when \<open>n \<ge> 2\<close>, and
  every element from the third on is the sum of the two elements just before it.
\<close>

theorem fibonacci_recurrence:
  assumes "0 \<le> n"
  shows "int (length (fibonacci n)) = n
    \<and> (1 \<le> n \<longrightarrow> fibonacci n ! 0 = 0)
    \<and> (2 \<le> n \<longrightarrow> fibonacci n ! 1 = 1)
    \<and> (\<forall>i. 2 \<le> i \<and> i < length (fibonacci n) \<longrightarrow>
          fibonacci n ! i = fibonacci n ! (i - 1) + fibonacci n ! (i - 2))"
proof (intro conjI impI allI)
  show "int (length (fibonacci n)) = n"
    using assms by (simp add: fibonacci_eq)
next
  assume "1 \<le> n"
  then show "fibonacci n ! 0 = 0"
    by (simp add: fibonacci_eq)
next
  assume "2 \<le> n"
  then have "1 < nat n" by simp
  then show "fibonacci n ! 1 = 1"
    by (simp add: fibonacci_eq)
next
  fix i :: nat
  assume i: "2 \<le> i \<and> i < length (fibonacci n)"
  then obtain k where k: "i = Suc (Suc k)"
    by (metis One_nat_def Suc_1 Suc_le_D Suc_le_mono)
  from i have "i < nat n" by (simp add: fibonacci_eq)
  with k show "fibonacci n ! i = fibonacci n ! (i - 1) + fibonacci n ! (i - 2)"
    by (simp add: fibonacci_eq term_from_step del: term_from.simps)
qed

theorem fibonacci_recurrence_witness:
  "(0::int) \<le> 5 \<and> int (length (fibonacci 5)) = 5 \<and> fibonacci 5 ! 0 = 0 \<and> fibonacci 5 ! 1 = 1
    \<and> fibonacci 5 ! 4 = fibonacci 5 ! 3 + fibonacci 5 ! 2"
proof -
  have h: "(0::int) \<le> 5" by simp
  have "length (fibonacci 5) = 5"
    using fibonacci_recurrence [OF h] by simp
  then show ?thesis
    using fibonacci_recurrence [OF h] by simp
qed

text \<open>
  C8. For a negative count the loop body never runs: \<open>fibonacci n\<close> is the empty list,
  the result for \<open>n = 0\<close>.
\<close>

theorem fibonacci_negative:
  assumes "n < 0"
  shows "fibonacci n = [] \<and> fibonacci n = fibonacci 0"
  using assms by (simp add: fibonacci_def range1_def range2_def)

theorem fibonacci_negative_witness:
  "(-3::int) < 0 \<and> fibonacci (-3) = [] \<and> fibonacci (-3) = fibonacci 0"
  using fibonacci_negative [of "-3"] by (simp add: fibonacci_def range1_def range2_def)

section \<open>Properties of \<^verbatim>\<open>find_primes\<close>\<close>

lemma sqrt_search_le: "sqrt_search n k * sqrt_search n k \<le> n"
  by (induction k) auto

lemma sqrt_search_max: "j \<le> k \<Longrightarrow> j * j \<le> n \<Longrightarrow> j \<le> sqrt_search n k"
proof (induction k)
  case 0
  then show ?case by simp
next
  case (Suc k)
  show ?case
  proof (cases "Suc k * Suc k \<le> n")
    case True
    with Suc.prems show ?thesis by simp
  next
    case False
    with Suc.prems have "j \<le> k"
      by (metis le_SucE)
    with Suc False show ?thesis by simp
  qed
qed

lemma exact_root_lower: "0 \<le> num \<Longrightarrow> exact_root num * exact_root num \<le> num"
proof -
  assume "0 \<le> num"
  have "int (sqrt_search (nat num) (nat num) * sqrt_search (nat num) (nat num)) \<le> int (nat num)"
    using sqrt_search_le [of "nat num" "nat num"] by (simp only: of_nat_le_iff)
  with \<open>0 \<le> num\<close> show ?thesis by (simp add: exact_root_def)
qed

lemma exact_root_max:
  assumes "0 \<le> d" "d * d \<le> num"
  shows "d \<le> exact_root num"
proof -
  have "nat d * nat d \<le> nat num"
    using assms by (metis nat_mono nat_mult_distrib)
  moreover have "nat d \<le> nat num"
  proof -
    have "nat d \<le> nat d * nat d" by (cases "nat d") simp_all
    with calculation show ?thesis by (rule order_trans [rotated])
  qed
  ultimately have "nat d \<le> sqrt_search (nat num) (nat num)"
    by (rule sqrt_search_max [rotated])
  with assms show ?thesis by (simp add: exact_root_def)
qed

lemma exact_root_bound:
  assumes "0 \<le> num" "0 \<le> i"
  shows "i \<le> exact_root num \<longleftrightarrow> i * i \<le> num"
proof
  assume "i \<le> exact_root num"
  with assms(2) have "i * i \<le> exact_root num * exact_root num"
    by (intro mult_mono) auto
  also have "\<dots> \<le> num"
    using assms(1) by (rule exact_root_lower)
  finally show "i * i \<le> num" .
next
  assume "i * i \<le> num"
  with assms(2) show "i \<le> exact_root num"
    by (rule exact_root_max)
qed

lemma is_prime_loop_iff: "is_prime_loop num ds \<longleftrightarrow> (\<forall>i \<in> set ds. num mod i \<noteq> 0)"
  by (induction ds) auto

lemma set_range2: "set (range2 a b) = {a..b - 1}"
  by (simp add: range2_def)

text \<open>Trial division up to the exact integer root decides primality.\<close>

lemma trial_division:
  assumes "2 \<le> num"
  shows "is_prime_loop num (range2 2 (exact_root num + 1)) \<longleftrightarrow> prime_number num"
proof
  assume loop: "is_prime_loop num (range2 2 (exact_root num + 1))"
  have no_small: "num mod i \<noteq> 0" if "2 \<le> i" "i \<le> exact_root num" for i
    using loop that by (simp add: is_prime_loop_iff set_range2)
  have "d = 1 \<or> d = num" if d: "0 < d" "d dvd num" for d
  proof (rule ccontr)
    assume neg: "\<not> (d = 1 \<or> d = num)"
    from d obtain e where e: "num = d * e" by (auto simp: dvd_def)
    with d assms have "0 < e"
      by (metis less_le_trans zero_less_mult_pos zero_less_numeral)
    have "d \<noteq> 1" "e \<noteq> 1" using neg e by auto
    with \<open>0 < d\<close> \<open>0 < e\<close> have two: "2 \<le> d" "2 \<le> e" by auto
    show False
    proof (cases "d \<le> e")
      case True
      then have "d * d \<le> num" using e \<open>0 < d\<close> by (simp add: mult_left_mono)
      then have "d \<le> exact_root num" using \<open>0 < d\<close> by (simp add: exact_root_max)
      with two(1) have "num mod d \<noteq> 0" by (rule no_small)
      with d(2) show False by simp
    next
      case False
      then have "e * e \<le> num" using e \<open>0 < e\<close> by (simp add: mult_right_mono)
      then have "e \<le> exact_root num" using \<open>0 < e\<close> by (simp add: exact_root_max)
      with two(2) have "num mod e \<noteq> 0" by (rule no_small)
      with e show False by simp
    qed
  qed
  with assms show "prime_number num" by (simp add: prime_number_def)
next
  assume p: "prime_number num"
  have "num mod i \<noteq> 0" if i: "2 \<le> i" "i \<le> exact_root num" for i
  proof
    assume "num mod i = 0"
    then have "i dvd num" by auto
    moreover from i(1) have "0 < i" "i \<noteq> 1" by simp_all
    ultimately have "i = num" using p unfolding prime_number_def by blast
    have "exact_root num * exact_root num \<le> num" using assms by (simp add: exact_root_lower)
    moreover have "i * i \<le> exact_root num * exact_root num"
      using i by (intro mult_mono) auto
    ultimately have "num * num \<le> num" using \<open>i = num\<close> by simp
    moreover have "num * 2 \<le> num * num" using assms by (intro mult_left_mono) auto
    ultimately show False using assms by simp
  qed
  then show "is_prime_loop num (range2 2 (exact_root num + 1))"
    by (simp add: is_prime_loop_iff set_range2)
qed

lemma find_primes_loop_eq:
  "\<forall>num \<in> set nums. 2 \<le> num \<and> num < 2 ^ 52 \<Longrightarrow>
    find_primes_loop nums primes = Inr (primes @ filter prime_number nums)"
proof (induction nums arbitrary: primes)
  case Nil
  show ?case by simp
next
  case (Cons num rest)
  then have num: "2 \<le> num" "num < 2 ^ 52"
    and rest: "\<forall>n \<in> set rest. 2 \<le> n \<and> n < 2 ^ 52"
    by simp_all
  from num have root: "float_root num = Inr (exact_root num)"
    by (simp add: float_root_def)
  from num(1) have "is_prime_loop num (range2 2 (exact_root num + 1)) = prime_number num"
    by (rule trial_division)
  then show ?case
    using Cons.IH [OF rest] root by simp
qed

lemma find_primes_loop_stops:
  assumes "\<forall>num \<in> set nums. 2 \<le> num \<and> num < 2 ^ 52" and "2 ^ 52 \<le> big"
  shows "find_primes_loop (nums @ big # rest) primes = Inl FloatRange"
  using assms(1)
proof (induction nums arbitrary: primes)
  case Nil
  show ?case using assms(2) by (simp add: float_root_def)
next
  case (Cons num nums)
  then have "float_root num = Inr (exact_root num)"
    by (simp add: float_root_def)
  with Cons show ?case by simp
qed

lemma sorted_wrt_upto: "sorted_wrt (<) [a..b]"
  by (metis distinct_upto sorted_upto strict_sorted_iff)

text \<open>
  The docstring of \<^verbatim>\<open>find_primes\<close> promises all prime numbers up to \<open>limit\<close>, and
  the specification (C2) promises them for every integer \<open>limit\<close>. Within the range
  the model covers that is what the code returns: \<open>find_primes limit\<close> is the strictly
  increasing list of exactly the prime numbers \<open>p\<close> with \<open>2 \<le> p \<le> limit\<close>, a
  candidate being kept exactly when no \<open>i\<close> from 2 up to and including its integer
  square root divides it, and the empty list for \<open>limit < 2\<close>. It does not hold of
  the code for every limit, because the bound is a floating-point root: see
  \<open>prime_square_passes\<close> below.
\<close>

lemma find_primes_in_range:
  assumes "limit < 2 ^ 52"
  shows "find_primes limit = Inr (filter prime_number [2..limit])"
    and "sorted_wrt (<) (filter prime_number [2..limit])"
    and "set (filter prime_number [2..limit]) = {p. 2 \<le> p \<and> p \<le> limit \<and> prime_number p}"
    and "2 \<le> p \<and> p \<le> limit \<Longrightarrow>
           prime_number p \<longleftrightarrow> (\<forall>i. 2 \<le> i \<and> i * i \<le> p \<longrightarrow> p mod i \<noteq> 0)"
    and "limit < 2 \<Longrightarrow> find_primes limit = Inr []"
proof -
  have "\<forall>num \<in> set (range2 2 (limit + 1)). 2 \<le> num \<and> num < 2 ^ 52"
    using assms by (auto simp: set_range2)
  then show eq: "find_primes limit = Inr (filter prime_number [2..limit])"
    by (simp add: find_primes_def find_primes_loop_eq) (simp add: range2_def)
  show "sorted_wrt (<) (filter prime_number [2..limit])"
    by (rule sorted_wrt_filter) (rule sorted_wrt_upto)
  show "set (filter prime_number [2..limit]) = {p. 2 \<le> p \<and> p \<le> limit \<and> prime_number p}"
    by auto
  show "prime_number p \<longleftrightarrow> (\<forall>i. 2 \<le> i \<and> i * i \<le> p \<longrightarrow> p mod i \<noteq> 0)"
    if p: "2 \<le> p \<and> p \<le> limit"
  proof -
    have "i \<le> exact_root p \<longleftrightarrow> i * i \<le> p" if "2 \<le> i" for i
      using exact_root_bound [of p i] p that by simp
    then have "set (range2 2 (exact_root p + 1)) = {i. 2 \<le> i \<and> i * i \<le> p}"
      by (auto simp: set_range2)
    then have "is_prime_loop p (range2 2 (exact_root p + 1))
        \<longleftrightarrow> (\<forall>i. 2 \<le> i \<and> i * i \<le> p \<longrightarrow> p mod i \<noteq> 0)"
      by (simp add: is_prime_loop_iff)
    with p show ?thesis
      by (simp add: trial_division)
  qed
  show "find_primes limit = Inr []" if "limit < 2"
    using that eq by simp
qed

text \<open>Beyond that range the model stops at the candidate \<open>2^52\<close>.\<close>

lemma find_primes_out_of_range:
  assumes "2 ^ 52 \<le> limit"
  shows "find_primes limit = Inl FloatRange"
proof -
  define B :: int where "B = 2 ^ 52"
  have B: "2 \<le> B" "B \<le> limit" "2 ^ 52 \<le> B"
    using assms by (simp_all add: B_def)
  have split: "[2..limit] = [2..B - 1] @ B # [B + 1..limit]"
    using B(1,2) by (rule upto_split3)
  have "\<forall>num \<in> set [2..B - 1]. 2 \<le> num \<and> num < B"
    by simp
  then have small: "\<forall>num \<in> set [2..B - 1]. 2 \<le> num \<and> num < 2 ^ 52"
    unfolding B_def .
  have "find_primes limit = find_primes_loop ([2..B - 1] @ B # [B + 1..limit]) []"
    unfolding find_primes_def range2_def by (simp only: add_diff_cancel_right' split)
  also have "\<dots> = Inl FloatRange"
    using small B(3) by (rule find_primes_loop_stops)
  finally show ?thesis .
qed

text \<open>
  Why the code's bound matters beyond the range: once the bound of the inner loop falls
  short of the integer root by one, the square of a prime passes the test. With bound
  \<open>p - 1\<close> no divisor of \<open>p * p\<close> is found, so the code appends the composite
  \<open>p * p\<close>. In double precision this happens at the prime \<open>p = 9007199254740997\<close>
  (\<open>2^53 + 5\<close>, which no double holds): \<^verbatim>\<open>int((p*p)**0.5)\<close> is \<open>p - 1\<close>.
\<close>

lemma prime_square_passes:
  assumes "prime_number p"
  shows "is_prime_loop (p * p) (range2 2 ((p - 1) + 1))"
proof -
  have "(p * p) mod i \<noteq> 0" if i: "2 \<le> i" "i \<le> p - 1" for i
  proof
    assume "(p * p) mod i = 0"
    then have dvd: "i dvd p * p" by auto
    let ?g = "gcd i p"
    have "0 < ?g" using i by simp
    moreover have "?g dvd p" by simp
    ultimately have "?g = 1 \<or> ?g = p"
      using assms unfolding prime_number_def by blast
    moreover have "?g \<le> i"
      using i by (intro zdvd_imp_le) simp_all
    ultimately have "coprime i p"
      using i by (auto simp: coprime_iff_gcd_eq_1)
    with dvd have "i dvd p"
      by (simp add: coprime_dvd_mult_left_iff)
    moreover from i have "0 < i" "i \<noteq> 1" "i \<noteq> p" by simp_all
    ultimately show False
      using assms unfolding prime_number_def by blast
  qed
  then show ?thesis
    by (simp add: is_prime_loop_iff set_range2)
qed

text \<open>The runs of the driver's calls, evaluated.\<close>

lemma fibonacci_10: "fibonacci 10 = [0, 1, 1, 2, 3, 5, 8, 13, 21, 34]"
  by code_simp

lemma find_primes_30: "find_primes 30 = Inr [2, 3, 5, 7, 11, 13, 17, 19, 23, 29]"
  by code_simp

section \<open>Properties of \<^verbatim>\<open>process_users\<close>\<close>

lemma process_users_loop_acc:
  "process_users_loop us acc =
     (case process_users_loop us [] of Inl e \<Rightarrow> Inl e | Inr ds \<Rightarrow> Inr (acc @ ds))"
proof (induction us arbitrary: acc)
  case Nil
  show ?case by simp
next
  case (Cons u rest)
  show ?case
  proof (cases "process_users_body u")
    case (Inl e)
    then show ?thesis by simp
  next
    case (Inr r)
    have "process_users_loop (u # rest) acc = process_users_loop rest (acc @ [r])"
      using Inr by simp
    also have "\<dots> = (case process_users_loop rest [] of
        Inl e \<Rightarrow> Inl e | Inr ds \<Rightarrow> Inr (acc @ r # ds))"
      by (subst Cons.IH) (simp split: sum.split)
    also have "\<dots> = (case process_users_loop (u # rest) [] of
        Inl e \<Rightarrow> Inl e | Inr ds \<Rightarrow> Inr (acc @ ds))"
      using Inr by (simp add: Cons.IH [of "[r]"] split: sum.split)
    finally show ?thesis .
  qed
qed

lemma process_users_Nil: "process_users [] = Inr []"
  by (simp add: process_users_def)

lemma process_users_Cons:
  "process_users (u # us) =
     (case process_users_body u of
        Inl e \<Rightarrow> Inl e
      | Inr r \<Rightarrow> (case process_users us of Inl e \<Rightarrow> Inl e | Inr rs \<Rightarrow> Inr (r # rs)))"
  by (simp add: process_users_def process_users_loop_acc [of us "[r]" for r] split: sum.split)

lemma process_users_Inr_iff:
  "process_users us = Inr rs \<longleftrightarrow> list_all2 (\<lambda>u r. process_users_body u = Inr r) us rs"
proof (induction us arbitrary: rs)
  case Nil
  show ?case by (auto simp: process_users_Nil)
next
  case (Cons u us)
  show ?case
  proof (cases "process_users us")
    case (Inl e)
    then have "\<not> list_all2 (\<lambda>u r. process_users_body u = Inr r) us rs'" for rs'
      using Cons.IH [of rs'] by simp
    with Inl show ?thesis
      by (cases rs) (auto simp: process_users_Cons split: sum.splits)
  next
    case (Inr ds)
    then have "list_all2 (\<lambda>u r. process_users_body u = Inr r) us rs' \<longleftrightarrow> rs' = ds" for rs'
      using Cons.IH [of rs'] by auto
    with Inr show ?thesis
      by (cases rs) (auto simp: process_users_Cons split: sum.splits)
  qed
qed

lemma process_users_body_Inr_iff:
  "process_users_body u = Inr r \<longleftrightarrow>
     (\<exists>name a. u ''name'' = Some name \<and> u ''age'' = Some (PInt a)
        \<and> r = [''name'' \<mapsto> name, ''age'' \<mapsto> PInt a, ''status'' \<mapsto> PStr (status_of a)])"
  by (auto simp: process_users_body_def status_expr_def split: option.splits pyval.splits)

lemma process_users_body_succeeds:
  "integer_age u \<Longrightarrow> (\<exists>r. process_users_body u = Inr r) \<longleftrightarrow> has_fields u"
  by (auto simp: process_users_body_def status_expr_def integer_age_def has_fields_def
      split: option.splits pyval.splits)

lemma process_users_body_fails:
  "integer_age u \<Longrightarrow> \<not> has_fields u \<Longrightarrow>
    process_users_body u = Inl (KeyError (if u ''name'' = None then ''name'' else ''age''))"
  by (auto simp: process_users_body_def status_expr_def integer_age_def has_fields_def
      split: option.splits pyval.splits)

lemma process_users_append_bad:
  assumes "\<forall>u \<in> set good. integer_age u \<and> has_fields u" "process_users_body bad = Inl e"
  shows "process_users (good @ bad # rest) = Inl e"
  using assms(1)
proof (induction good)
  case Nil
  show ?case using assms(2) by (simp add: process_users_Cons)
next
  case (Cons u good)
  then have "integer_age u" "has_fields u" by simp_all
  then obtain r where "process_users_body u = Inr r"
    using process_users_body_succeeds by blast
  with Cons show ?case by (simp add: process_users_Cons)
qed

lemma process_users_succeeds:
  assumes "\<forall>u \<in> set users. integer_age u"
  shows "(\<exists>results. process_users users = Inr results) \<longleftrightarrow> (\<forall>u \<in> set users. has_fields u)"
  using assms
proof (induction users)
  case Nil
  show ?case by (simp add: process_users_Nil)
next
  case (Cons u users)
  then have u: "integer_age u" and IH: "(\<exists>results. process_users users = Inr results) \<longleftrightarrow> (\<forall>u \<in> set users. has_fields u)"
    by simp_all
  show ?case
    using process_users_body_succeeds [OF u] IH
    by (auto simp: process_users_Cons split: sum.splits)
qed

lemma process_users_results:
  assumes "process_users users = Inr results"
  shows "length results = length users"
    and "i < length users \<Longrightarrow> process_users_body (users ! i) = Inr (results ! i)"
  using assms by (simp_all add: process_users_Inr_iff list_all2_conv_all_nth)

lemma process_users_main_users: "process_users main_users = Inr main_classified"
  by (simp add: process_users_def main_users_def main_classified_def process_users_body_def
      status_expr_def status_of_def)

text \<open>
  C3. The status is a total function of the age alone: \<open>senior\<close> from 60 on,
  \<open>adult\<close> from 18 to 59, \<open>minor\<close> below 18, negative ages included; at the
  boundaries, 18 is adult, 60 senior, 17 minor and 59 adult. Whatever its name and
  other fields, a record with an integer age is classified, with that status.
\<close>

theorem classification_by_age:
  "(60 \<le> age \<longrightarrow> status_of age = ''senior'')
   \<and> (18 \<le> age \<and> age < 60 \<longrightarrow> status_of age = ''adult'')
   \<and> (age < 18 \<longrightarrow> status_of age = ''minor'')
   \<and> (age < 0 \<longrightarrow> status_of age = ''minor'')
   \<and> status_of 18 = ''adult'' \<and> status_of 60 = ''senior''
   \<and> status_of 17 = ''minor'' \<and> status_of 59 = ''adult''
   \<and> (user ''name'' = Some name \<and> user ''age'' = Some (PInt age) \<longrightarrow>
        (\<exists>r. process_users [user] = Inr [r] \<and> r ''status'' = Some (PStr (status_of age))))"
  by (simp add: status_of_def process_users_Cons process_users_Nil process_users_body_def
      status_expr_def)

theorem classification_by_age_witness:
  "status_of 75 = ''senior'' \<and> status_of 30 = ''adult'' \<and> status_of 3 = ''minor''
   \<and> status_of (-4) = ''minor''
   \<and> (\<exists>r. process_users [[''name'' \<mapsto> PStr ''Bob'', ''age'' \<mapsto> PInt (-4), ''city'' \<mapsto> PStr ''Oslo'']]
         = Inr [r] \<and> r ''status'' = Some (PStr ''minor''))"
  using classification_by_age [of 75 "[''name'' \<mapsto> PStr ''Bob'']" "PStr ''Bob''"]
    classification_by_age [of 30 "[''name'' \<mapsto> PStr ''Bob'']" "PStr ''Bob''"]
    classification_by_age [of 3 "[''name'' \<mapsto> PStr ''Bob'']" "PStr ''Bob''"]
    classification_by_age [of "-4"
      "[''name'' \<mapsto> PStr ''Bob'', ''age'' \<mapsto> PInt (-4), ''city'' \<mapsto> PStr ''Oslo'']" "PStr ''Bob''"]
  by (simp add: status_of_def)

text \<open>
  C4. For a list of user records, \<open>process_users\<close> succeeds exactly when every record
  has both the name and the age field; the result then has the length of the input and
  its \<open>i\<close>-th record holds the \<open>i\<close>-th input's name and age and the status of that
  age. When a record lacks a field, the call ends in the \<open>KeyError\<close> of the first
  such record, which carries no result list: the records classified before it are
  dropped and the records after it are not visited.
\<close>

theorem process_users_missing_field:
  assumes "\<forall>u \<in> set users. integer_age u"
  shows "((\<exists>results. process_users users = Inr results) \<longleftrightarrow> (\<forall>u \<in> set users. has_fields u))
    \<and> (\<forall>results. process_users users = Inr results \<longrightarrow>
          length results = length users
          \<and> (\<forall>i. i < length users \<longrightarrow>
                (\<exists>name age. (users ! i) ''name'' = Some name \<and> (users ! i) ''age'' = Some (PInt age)
                  \<and> results ! i = [''name'' \<mapsto> name, ''age'' \<mapsto> PInt age,
                                   ''status'' \<mapsto> PStr (status_of age)])))
    \<and> (\<forall>good bad rest. users = good @ bad # rest \<and> (\<forall>u \<in> set good. has_fields u)
          \<and> \<not> has_fields bad \<longrightarrow>
          process_users users = Inl (KeyError (if bad ''name'' = None then ''name'' else ''age'')))"
proof (intro conjI allI impI)
  show "(\<exists>results. process_users users = Inr results) \<longleftrightarrow> (\<forall>u \<in> set users. has_fields u)"
    using assms by (rule process_users_succeeds)
next
  fix results
  assume "process_users users = Inr results"
  then show "length results = length users"
    by (rule process_users_results)
next
  fix results i
  assume "process_users users = Inr results" "i < length users"
  then have "process_users_body (users ! i) = Inr (results ! i)"
    by (rule process_users_results)
  then show "\<exists>name age. (users ! i) ''name'' = Some name \<and> (users ! i) ''age'' = Some (PInt age)
      \<and> results ! i = [''name'' \<mapsto> name, ''age'' \<mapsto> PInt age, ''status'' \<mapsto> PStr (status_of age)]"
    by (simp add: process_users_body_Inr_iff)
next
  fix good bad rest
  assume a: "users = good @ bad # rest \<and> (\<forall>u \<in> set good. has_fields u) \<and> \<not> has_fields bad"
  with assms have "integer_age bad" and good: "\<forall>u \<in> set good. integer_age u \<and> has_fields u"
    by simp_all
  with a have "process_users_body bad = Inl (KeyError (if bad ''name'' = None then ''name'' else ''age''))"
    by (simp add: process_users_body_fails)
  with good a show "process_users users = Inl (KeyError (if bad ''name'' = None then ''name'' else ''age''))"
    by (simp add: process_users_append_bad)
qed

theorem process_users_missing_field_witness:
  "list_all integer_age [alice, no_age, no_name]
   \<and> process_users [alice, no_age, no_name] = Inl (KeyError ''age'')
   \<and> (\<nexists>results. process_users [alice, no_age, no_name] = Inr results)
   \<and> list_all integer_age [alice]
   \<and> (\<exists>results. process_users [alice] = Inr results \<and> length results = 1)"
proof -
  have t: "\<forall>u \<in> set [alice, no_age, no_name]. integer_age u"
    by (simp add: integer_age_def alice_def no_age_def no_name_def)
  have b: "[alice, no_age, no_name] = [alice] @ no_age # [no_name]
      \<and> (\<forall>u \<in> set [alice]. has_fields u) \<and> \<not> has_fields no_age"
    by (simp add: has_fields_def alice_def no_age_def)
  note third = conjunct2 [OF conjunct2 [OF process_users_missing_field [OF t]]]
  have e: "process_users [alice, no_age, no_name] = Inl (KeyError ''age'')"
    using third [rule_format, of "[alice]" no_age "[no_name]"] b by (simp add: no_age_def)
  have t1: "\<forall>u \<in> set [alice]. integer_age u"
    by (simp add: integer_age_def alice_def)
  have "\<exists>results. process_users [alice] = Inr results"
    using process_users_missing_field [OF t1] by (simp add: has_fields_def alice_def)
  then have "\<exists>results. process_users [alice] = Inr results \<and> length results = 1"
    using process_users_missing_field [OF t1] by auto
  with e t t1 show ?thesis by simp
qed

text \<open>
  C9. Classifying again is idempotent: after \<open>process_users\<close> has classified a list,
  classifying the (name, age) pairs of its results, or the results themselves, gives
  the same records, so each keeps its status.
\<close>

theorem process_users_idempotent:
  assumes "process_users users = Inr results"
  shows "process_users (map name_age results) = Inr results
    \<and> process_users results = Inr results"
proof -
  have body: "process_users_body (name_age r) = Inr r \<and> process_users_body r = Inr r"
    if "process_users_body u = Inr r" for u r
    using that
    by (auto simp: process_users_body_Inr_iff name_age_def)
  from assms have "list_all2 (\<lambda>u r. process_users_body u = Inr r) users results"
    by (simp add: process_users_Inr_iff)
  then have "list_all2 (\<lambda>u r. process_users_body u = Inr r) (map name_age results) results
      \<and> list_all2 (\<lambda>u r. process_users_body u = Inr r) results results"
    using body by (induction rule: list_all2_induct) auto
  then show ?thesis
    by (simp add: process_users_Inr_iff)
qed

theorem process_users_idempotent_witness:
  "process_users main_users = Inr main_classified
   \<and> process_users (map name_age main_classified) = Inr main_classified
   \<and> process_users main_classified = Inr main_classified"
  using process_users_idempotent [OF process_users_main_users] process_users_main_users
  by simp

subsection \<open>The store-level model refines to the value-level one\<close>

lemma extended_Nil:
  "objs h results = ListObj rs0 \<Longrightarrow> extended h results rs0 [] = h"
  by (simp add: extended_def fun_eq_iff)

lemma extended_Cons:
  assumes "results < next_free h"
  shows "extended \<lparr>objs = (objs h)(next_free h := DictObj r, results := ListObj (rs0 @ [next_free h])),
            next_free = Suc (next_free h)\<rparr> results (rs0 @ [next_free h]) ds
       = extended h results rs0 (r # ds)"
proof -
  let ?n = "next_free h"
  have "[?n..<?n + length (r # ds)] = ?n # [Suc ?n..<Suc ?n + length ds]"
    by (subst upt_rec) simp
  moreover have "(r # ds) ! (a - ?n) = ds ! (a - Suc ?n)" if "Suc ?n \<le> a" for a
    using that by (simp add: nth_Cons' Suc_le_eq)
  ultimately show ?thesis
    using assms
    by (auto simp: extended_def fun_eq_iff nth_Cons' Suc_le_eq)
qed

lemma process_users_heap_loop_eq:
  assumes "results < next_free h" "objs h results = ListObj rs0"
    and "\<forall>u \<in> set us. u < next_free h \<and> u \<noteq> results \<and> is_dict h u"
  shows "process_users_heap_loop us results h =
     (case process_users (map (dict_at h) us) of
        Inl e \<Rightarrow> Inl e
      | Inr ds \<Rightarrow> Inr (extended h results rs0 ds))"
  using assms
proof (induction us arbitrary: h rs0)
  case Nil
  then show ?case by (simp add: process_users_Nil extended_Nil)
next
  case (Cons u rest)
  from Cons.prems obtain d where d: "objs h u = DictObj d"
    by (auto simp: is_dict_def split: obj.splits)
  then have du: "dict_at h u = d" by (simp add: dict_at_def)
  show ?case
  proof (cases "process_users_body d")
    case (Inl e)
    with d du show ?thesis by (simp add: process_users_Cons)
  next
    case (Inr r)
    let ?n = "next_free h"
    let ?h2 = "\<lparr>objs = (objs h)(?n := DictObj r, results := ListObj (rs0 @ [?n])),
            next_free = Suc ?n\<rparr>"
    have step: "process_users_heap_loop (u # rest) results h = process_users_heap_loop rest results ?h2"
      using d Inr Cons.prems(1,2) by (simp add: alloc_def list_append_def)
    have same: "map (dict_at ?h2) rest = map (dict_at h) rest"
      using Cons.prems(3) by (auto simp: dict_at_def)
    have "process_users_heap_loop rest results ?h2 =
       (case process_users (map (dict_at ?h2) rest) of
          Inl e \<Rightarrow> Inl e
        | Inr ds \<Rightarrow> Inr (extended ?h2 results (rs0 @ [?n]) ds))"
      using Cons.prems by (intro Cons.IH) (auto simp: is_dict_def)
    with step same show ?thesis
      using Inr du Cons.prems(1)
      by (simp add: process_users_Cons extended_Cons split: sum.split)
  qed
qed

text \<open>
  C10. On the store: when \<open>users\<close> is a list of dictionaries that all have a name
  and an integer age, \<open>process_users\<close> succeeds and changes no object that existed
  before the call, so the input list and every input record are as they were. The
  result is a fresh list of as many fresh dictionaries; the \<open>i\<close>-th has exactly the
  fields name, age and status, with the name and the age of the \<open>i\<close>-th input. Other
  fields of an input record are accepted and left out of the output.
\<close>

theorem process_users_frame:
  assumes "users < next_free h" and "objs h users = ListObj us"
    and "\<forall>u \<in> set us. u < next_free h \<and> is_dict h u
          \<and> has_fields (dict_at h u) \<and> integer_age (dict_at h u)"
  shows "\<exists>results h' rs. process_users_heap users h = Inr (results, h')
     \<and> (\<forall>a. a < next_free h \<longrightarrow> objs h' a = objs h a)
     \<and> next_free h \<le> results \<and> objs h' results = ListObj rs \<and> length rs = length us
     \<and> (\<forall>i. i < length us \<longrightarrow> next_free h \<le> rs ! i \<and> rs ! i \<noteq> results
           \<and> dom (dict_at h' (rs ! i)) = {''name'', ''age'', ''status''}
           \<and> dict_at h' (rs ! i) ''name'' = dict_at h (us ! i) ''name''
           \<and> dict_at h' (rs ! i) ''age'' = dict_at h (us ! i) ''age'')"
proof -
  let ?n = "next_free h"
  let ?h1 = "\<lparr>objs = (objs h)(?n := ListObj []), next_free = Suc ?n\<rparr>"
  have users1: "objs ?h1 users = ListObj us"
    using assms(1,2) by simp
  have same: "map (dict_at ?h1) us = map (dict_at h) us"
    using assms(3) by (auto simp: dict_at_def)
  have "\<forall>u \<in> set (map (dict_at h) us). integer_age u"
    using assms(3) by simp
  moreover have "\<forall>u \<in> set (map (dict_at h) us). has_fields u"
    using assms(3) by simp
  ultimately obtain ds where ds: "process_users (map (dict_at h) us) = Inr ds"
    using process_users_succeeds by blast
  have len: "length ds = length us"
    using process_users_results(1) [OF ds] by simp
  have body: "process_users_body (dict_at h (us ! i)) = Inr (ds ! i)" if "i < length us" for i
    using process_users_results(2) [OF ds, of i] that by simp
  have "process_users_heap_loop us ?n ?h1 =
     (case process_users (map (dict_at ?h1) us) of
        Inl e \<Rightarrow> Inl e
      | Inr ds \<Rightarrow> Inr (extended ?h1 ?n [] ds))"
    using assms(3) by (intro process_users_heap_loop_eq) (auto simp: is_dict_def)
  then have loop: "process_users_heap_loop us ?n ?h1 = Inr (extended ?h1 ?n [] ds)"
    using same ds by simp
  define h' where "h' = extended ?h1 ?n [] ds"
  define rs where "rs = [Suc ?n..<Suc ?n + length ds]"
  have run: "process_users_heap users h = Inr (?n, h')"
    using users1 loop by (simp add: process_users_heap_def alloc_def h'_def)
  have frame: "\<forall>a. a < ?n \<longrightarrow> objs h' a = objs h a"
    by (simp add: extended_def h'_def)
  have res: "objs h' ?n = ListObj rs"
    by (simp add: extended_def h'_def rs_def del: upt_Suc)
  have lrs: "length rs = length us"
    by (simp add: rs_def len del: upt_Suc)
  have each: "\<forall>i. i < length us \<longrightarrow> ?n \<le> rs ! i \<and> rs ! i \<noteq> ?n
      \<and> dom (dict_at h' (rs ! i)) = {''name'', ''age'', ''status''}
      \<and> dict_at h' (rs ! i) ''name'' = dict_at h (us ! i) ''name''
      \<and> dict_at h' (rs ! i) ''age'' = dict_at h (us ! i) ''age''"
  proof (intro allI impI)
    fix i
    assume i: "i < length us"
    with len have nth: "rs ! i = Suc ?n + i"
      unfolding rs_def by (simp only: nth_upt add_less_cancel_left)
    from i len have at: "dict_at h' (Suc ?n + i) = ds ! i"
      by (simp add: dict_at_def extended_def h'_def)
    from body [OF i] obtain name a where
      "dict_at h (us ! i) ''name'' = Some name" "dict_at h (us ! i) ''age'' = Some (PInt a)"
      "ds ! i = [''name'' \<mapsto> name, ''age'' \<mapsto> PInt a, ''status'' \<mapsto> PStr (status_of a)]"
      by (auto simp: process_users_body_Inr_iff)
    then show "?n \<le> rs ! i \<and> rs ! i \<noteq> ?n
      \<and> dom (dict_at h' (rs ! i)) = {''name'', ''age'', ''status''}
      \<and> dict_at h' (rs ! i) ''name'' = dict_at h (us ! i) ''name''
      \<and> dict_at h' (rs ! i) ''age'' = dict_at h (us ! i) ''age''"
      unfolding nth at by (simp add: insert_commute)
  qed
  from run frame res lrs each show ?thesis
    by (intro exI [of _ ?n] exI [of _ h'] exI [of _ rs] conjI) simp_all
qed

theorem process_users_frame_witness:
  "\<exists>results h' rs. process_users_heap 2 sample_heap = Inr (results, h')
     \<and> objs h' 0 = objs sample_heap 0 \<and> objs h' 1 = objs sample_heap 1
     \<and> objs h' 2 = ListObj [0, 1]
     \<and> objs h' results = ListObj rs \<and> length rs = 2
     \<and> dom (dict_at h' (rs ! 1)) = {''name'', ''age'', ''status''}
     \<and> dict_at h' (rs ! 1) ''name'' = Some (PStr ''Bob'')
     \<and> dict_at h' (rs ! 1) ''age'' = Some (PInt 17)"
proof -
  have a1: "(2::nat) < next_free sample_heap"
    by (simp add: sample_heap_def)
  have a2: "objs sample_heap 2 = ListObj [0, 1]"
    by (simp add: sample_heap_def)
  have a3: "\<forall>u \<in> set [0, 1]. u < next_free sample_heap \<and> is_dict sample_heap u
      \<and> has_fields (dict_at sample_heap u) \<and> integer_age (dict_at sample_heap u)"
    by (simp add: sample_heap_def is_dict_def dict_at_def has_fields_def integer_age_def)
  from process_users_frame [OF a1 a2 a3] obtain results h' rs where
    r: "process_users_heap 2 sample_heap = Inr (results, h')"
      "\<forall>a. a < next_free sample_heap \<longrightarrow> objs h' a = objs sample_heap a"
      "objs h' results = ListObj rs" "length rs = length [0::nat, 1]"
      "\<forall>i. i < length [0::nat, 1] \<longrightarrow> next_free sample_heap \<le> rs ! i \<and> rs ! i \<noteq> results
           \<and> dom (dict_at h' (rs ! i)) = {''name'', ''age'', ''status''}
           \<and> dict_at h' (rs ! i) ''name'' = dict_at sample_heap ([0, 1] ! i) ''name''
           \<and> dict_at h' (rs ! i) ''age'' = dict_at sample_heap ([0, 1] ! i) ''age''"
    by (elim exE conjE) (rule that)
  from r(2) have "objs h' 0 = objs sample_heap 0" "objs h' 1 = objs sample_heap 1"
    "objs h' 2 = ListObj [0, 1]"
    by (simp_all add: sample_heap_def)
  moreover from r(5) [rule_format, of 1] have
    "dom (dict_at h' (rs ! 1)) = {''name'', ''age'', ''status''}"
    "dict_at h' (rs ! 1) ''name'' = Some (PStr ''Bob'')"
    "dict_at h' (rs ! 1) ''age'' = Some (PInt 17)"
    by (simp_all add: sample_heap_def dict_at_def)
  ultimately show ?thesis
    using r(1,3,4) by (intro exI [of _ results] exI [of _ h'] exI [of _ rs]) simp
qed

section \<open>The driver\<close>

lemma main_run:
  "main =
     ([''Fibonacci(10): [0, 1, 1, 2, 3, 5, 8, 13, 21, 34]'',
       ''Primes up to 30: [2, 3, 5, 7, 11, 13, 17, 19, 23, 29]'',
       ''  Alice: adult'', ''  Bob: minor'', ''  Charlie: senior'',
       ''Total: 217''], None)"
  by code_simp

lemma main_lines:
  "main =
     ([''Fibonacci(10): '' @ str_int_list (fibonacci 10),
       ''Primes up to 30: '' @ str_int_list [2, 3, 5, 7, 11, 13, 17, 19, 23, 29]]
      @ [''  Alice: adult'', ''  Bob: minor'', ''  Charlie: senior'']
      @ [''Total: '' @ str_int (sum_list (fibonacci 10)
           + sum_list [2, 3, 5, 7, 11, 13, 17, 19, 23, 29])], None)"
  by code_simp

lemma main_user_lines:
  "map user_line main_classified = map Inr [''  Alice: adult'', ''  Bob: minor'', ''  Charlie: senior'']"
  by (simp add: main_classified_def user_line_def py_str_def)

text \<open>
  C5. With the driver's inputs: \<open>fibonacci 10\<close> is 0, 1, 1, 2, 3, 5, 8, 13, 21, 34;
  \<open>find_primes 30\<close> is 2, 3, 5, 7, 11, 13, 17, 19, 23, 29; and the records
  (Alice, 30), (Bob, 17), (Charlie, 65) are classified adult, minor and senior, in
  that order.
\<close>

theorem driver_results:
  "fibonacci 10 = [0, 1, 1, 2, 3, 5, 8, 13, 21, 34]
   \<and> find_primes 30 = Inr [2, 3, 5, 7, 11, 13, 17, 19, 23, 29]
   \<and> process_users
        [[''name'' \<mapsto> PStr ''Alice'', ''age'' \<mapsto> PInt 30],
         [''name'' \<mapsto> PStr ''Bob'', ''age'' \<mapsto> PInt 17],
         [''name'' \<mapsto> PStr ''Charlie'', ''age'' \<mapsto> PInt 65]]
      = Inr
        [[''name'' \<mapsto> PStr ''Alice'', ''age'' \<mapsto> PInt 30, ''status'' \<mapsto> PStr ''adult''],
         [''name'' \<mapsto> PStr ''Bob'', ''age'' \<mapsto> PInt 17, ''status'' \<mapsto> PStr ''minor''],
         [''name'' \<mapsto> PStr ''Charlie'', ''age'' \<mapsto> PInt 65, ''status'' \<mapsto> PStr ''senior'']]"
  using fibonacci_10 find_primes_30 process_users_main_users
  by (simp add: main_users_def main_classified_def)

text \<open>
  C6, as the specification states it, fails: the primes up to 30 do not sum to 159, and
  the total printed is not 247.
\<close>

theorem total_247_refuted:
  "\<not> (sum_list (fibonacci 10) = 88
      \<and> map_sum id sum_list (find_primes 30) = Inr 159
      \<and> last (fst main) = ''Total: 247'')"
  by (simp add: find_primes_30)

text \<open>
  C6, amended. In the driver's run the Fibonacci terms sum to 88, the primes found sum
  to 129, and the total printed is 217.
\<close>

theorem driver_total:
  "sum_list (fibonacci 10) = 88
   \<and> map_sum id sum_list (find_primes 30) = Inr 129
   \<and> map_sum id (\<lambda>primes. sum_list (fibonacci 10) + sum_list primes) (find_primes 30) = Inr 217
   \<and> last (fst main) = ''Total: 217'' \<and> snd main = None"
  by (simp add: fibonacci_10 find_primes_30 main_run)

text \<open>
  C7. The driver ends without an exception and its console holds, in this order: the
  line \<open>Fibonacci(10): \<close> followed by the list of the 10 terms in list notation; the
  line \<open>Primes up to 30: \<close> followed by the list of the primes found; one line per
  classified user, in input order, made of two spaces, the name, a colon, a space and
  the status; and the line \<open>Total: \<close> followed by the sum of the Fibonacci terms plus
  the sum of the primes found.
\<close>

theorem driver_output:
  "\<exists>primes processed lines.
     find_primes 30 = Inr primes
     \<and> process_users main_users = Inr processed
     \<and> map user_line processed = map Inr lines
     \<and> length lines = length main_users
     \<and> length (fibonacci 10) = 10
     \<and> main =
         ([''Fibonacci(10): '' @ str_int_list (fibonacci 10),
           ''Primes up to 30: '' @ str_int_list primes]
          @ lines
          @ [''Total: '' @ str_int (sum_list (fibonacci 10) + sum_list primes)], None)
     \<and> main =
         ([''Fibonacci(10): [0, 1, 1, 2, 3, 5, 8, 13, 21, 34]'',
           ''Primes up to 30: [2, 3, 5, 7, 11, 13, 17, 19, 23, 29]'',
           ''  Alice: adult'', ''  Bob: minor'', ''  Charlie: senior'',
           ''Total: 217''], None)"
proof (intro exI conjI)
  show "find_primes 30 = Inr [2, 3, 5, 7, 11, 13, 17, 19, 23, 29]"
    by (rule find_primes_30)
  show "process_users main_users = Inr main_classified"
    by (rule process_users_main_users)
  show "map user_line main_classified
      = map Inr [''  Alice: adult'', ''  Bob: minor'', ''  Charlie: senior'']"
    by (rule main_user_lines)
  show "length [''  Alice: adult'', ''  Bob: minor'', ''  Charlie: senior''] = length main_users"
    by (simp add: main_users_def)
  show "length (fibonacci 10) = 10"
    by (simp add: fibonacci_10)
  show "main =
     ([''Fibonacci(10): '' @ str_int_list (fibonacci 10),
       ''Primes up to 30: '' @ str_int_list [2, 3, 5, 7, 11, 13, 17, 19, 23, 29]]
      @ [''  Alice: adult'', ''  Bob: minor'', ''  Charlie: senior'']
      @ [''Total: '' @ str_int (sum_list (fibonacci 10)
           + sum_list [2, 3, 5, 7, 11, 13, 17, 19, 23, 29])], None)"
    by (rule main_lines)
  show "main =
     ([''Fibonacci(10): [0, 1, 1, 2, 3, 5, 8, 13, 21, 34]'',
       ''Primes up to 30: [2, 3, 5, 7, 11, 13, 17, 19, 23, 29]'',
       ''  Alice: adult'', ''  Bob: minor'', ''  Charlie: senior'',
       ''Total: 217''], None)"
    by (rule main_run)
qed

end
